theory Spec2Isabelle
  imports Complex_Main
begin

section \<open>Numbers and errors\<close>

text \<open>
  The converter of \<^verbatim>\<open>src/main.py\<close> computes with Python floats. They are modelled as
  real numbers: \<^verbatim>\<open>math.dist\<close>, \<^verbatim>\<open>math.hypot\<close>, \<^verbatim>\<open>math.asin\<close> and \<^verbatim>\<open>math.tan\<close> are
  the exact functions, so rounding, overflow and NaN are outside the model. What Python
  raises is kept as a value: a division by zero is \<open>Inl ZeroDivisionError\<close>, an
  \<^verbatim>\<open>asin\<close> outside \<open>[-1, 1]\<close> and a \<^verbatim>\<open>float()\<close> of a malformed string are
  \<open>Inl ValueError\<close>.
\<close>

datatype py_error = ZeroDivisionError | ValueError

type_synonym point = "real \<times> real"

type_synonym xyk = "real \<times> real \<times> real"

type_synonym xyb = "real \<times> real \<times> real"

definition EPS :: real where
  "EPS = 1 / 10 ^ 9"

definition py_bind :: "py_error + 'a \<Rightarrow> ('a \<Rightarrow> py_error + 'b) \<Rightarrow> py_error + 'b" where
  "py_bind m f = (case m of Inl e \<Rightarrow> Inl e | Inr v \<Rightarrow> f v)"

definition truediv :: "real \<Rightarrow> real \<Rightarrow> py_error + real" where
  "truediv a b = (if b = 0 then Inl ZeroDivisionError else Inr (a / b))"

definition math_asin :: "real \<Rightarrow> py_error + real" where
  "math_asin a = (if - 1 \<le> a \<and> a \<le> 1 then Inr (arcsin a) else Inl ValueError)"

definition math_dist :: "point \<Rightarrow> point \<Rightarrow> real" where
  "math_dist p q = sqrt ((fst p - fst q)\<^sup>2 + (snd p - snd q)\<^sup>2)"

definition math_hypot :: "real \<Rightarrow> real \<Rightarrow> real" where
  "math_hypot dx dy = sqrt (dx\<^sup>2 + dy\<^sup>2)"

section \<open>Bulge geometry\<close>

text \<open>
  \<^verbatim>\<open>bulge_from_points_radius(p1, p2, r, ccw)\<close>: the chord length is computed first, a
  radius below \<open>EPS\<close> returns \<open>0.0\<close>, otherwise the clamped half-angle goes through
  \<^verbatim>\<open>asin\<close> and \<^verbatim>\<open>tan\<close>.
\<close>

definition bulge_from_points_radius :: "point \<Rightarrow> point \<Rightarrow> real \<Rightarrow> bool \<Rightarrow> py_error + real" where
  "bulge_from_points_radius p1 p2 r ccw =
     (let d = math_dist p1 p2 in
      if r < EPS then Inr 0
      else py_bind (truediv d (2 * r)) (\<lambda>q.
             let arg = max (- 1) (min 1 q) in
             py_bind (math_asin arg) (\<lambda>a.
               let theta = 2 * a; b = tan (theta / 4) in
               Inr (if ccw then b else - b))))"

text \<open>
  The body of the loop of \<^verbatim>\<open>build_xyb_from_points\<close> at index \<open>i\<close>: the vertex
  appended to \<^verbatim>\<open>out\<close>. Both reads are in range when \<open>i < length pts\<close>.
\<close>

definition xyb_at :: "xyk list \<Rightarrow> nat \<Rightarrow> py_error + xyb" where
  "xyb_at pts i =
     (let n = length pts;
          (x, y, k) = pts ! i;
          (x2, y2, k2) = pts ! ((i + 1) mod n) in
      if \<bar>k\<bar> < EPS then Inr (x, y, 0)
      else let r = \<bar>k\<bar>; ccw = (k > 0) in
           py_bind (bulge_from_points_radius (x, y) (x2, y2) r ccw) (\<lambda>b. Inr (x, y, b)))"

fun xyb_loop :: "xyk list \<Rightarrow> nat list \<Rightarrow> xyb list \<Rightarrow> py_error + xyb list" where
  "xyb_loop pts [] out = Inr out"
| "xyb_loop pts (i # js) out = py_bind (xyb_at pts i) (\<lambda>v. xyb_loop pts js (out @ [v]))"

definition build_xyb_from_points :: "xyk list \<Rightarrow> py_error + xyb list" where
  "build_xyb_from_points pts =
     (let n = length pts in
      if n < 2 then Inr [] else xyb_loop pts [0..<n] [])"


section \<open>The drawing sink\<close>

text \<open>
  The modelspace of the drawing library is modelled as the list of entities added so far:
  \<^verbatim>\<open>msp.add_lwpolyline(verts, format="xyb", close=..., dxfattribs={"layer": ...})\<close> and
  \<^verbatim>\<open>msp.add_circle(center, r, dxfattribs={"layer": ...})\<close> append one entity each.
\<close>

datatype entity =
    LWPolyline (layer: string) (verts: "xyb list") (close: bool)
  | Circle (layer: string) (center: point) (radius: real)

definition add_lwpolyline :: "entity list \<Rightarrow> xyb list \<Rightarrow> bool \<Rightarrow> string \<Rightarrow> entity list" where
  "add_lwpolyline msp vs cl lay = msp @ [LWPolyline lay vs cl]"

definition add_circle :: "entity list \<Rightarrow> point \<Rightarrow> real \<Rightarrow> string \<Rightarrow> entity list" where
  "add_circle msp c r lay = msp @ [Circle lay c r]"

section \<open>Slot capsules\<close>

definition add_slot_capsule ::
    "entity list \<Rightarrow> point \<Rightarrow> point \<Rightarrow> real \<Rightarrow> string \<Rightarrow> py_error + entity list" where
  "add_slot_capsule msp c1 c2 dia lay =
     (let (x1, y1) = c1; (x2, y2) = c2;
          r = dia / 2;
          dx = x2 - x1; dy = y2 - y1;
          L = math_hypot dx dy in
      if L < EPS then (if r > 0 then Inr (add_circle msp (x1, y1) r lay) else Inr msp)
      else py_bind (truediv (- dy) L) (\<lambda>nx.
           py_bind (truediv dx L) (\<lambda>ny.
             let P0 = (x1 - nx * r, y1 - ny * r);
                 P1 = (x2 - nx * r, y2 - ny * r);
                 P2 = (x2 + nx * r, y2 + ny * r);
                 P3 = (x1 + nx * r, y1 + ny * r);
                 verts_xyb = [(fst P0, snd P0, 0), (fst P1, snd P1, 1),
                              (fst P2, snd P2, 0), (fst P3, snd P3, 1)] in
             Inr (add_lwpolyline msp verts_xyb True lay))))"

section \<open>Text: characters, lines and block tags\<close>

text \<open>
  A text is a HOL string, read as a sequence of code points below 256. The character
  classes are those of Python's \<^verbatim>\<open>str\<close> on that range: \<^verbatim>\<open>str.isspace\<close> (also the
  class \<^verbatim>\<open>\s\<close> of the regular expressions), the decimal digits of \<^verbatim>\<open>\d\<close>, the range
  \<^verbatim>\<open>[A-Z]\<close>, \<^verbatim>\<open>str.lower\<close> and the line boundaries of \<^verbatim>\<open>str.splitlines\<close>.
\<close>

definition is_space :: "char \<Rightarrow> bool" where
  "is_space c = (let n = (of_char c :: nat) in
     (9 \<le> n \<and> n \<le> 13) \<or> (28 \<le> n \<and> n \<le> 32) \<or> n = 133 \<or> n = 160)"

definition is_digit :: "char \<Rightarrow> bool" where
  "is_digit c = (let n = (of_char c :: nat) in 48 \<le> n \<and> n \<le> 57)"

definition is_upper_AZ :: "char \<Rightarrow> bool" where
  "is_upper_AZ c = (let n = (of_char c :: nat) in 65 \<le> n \<and> n \<le> 90)"

definition py_lower :: "char \<Rightarrow> char" where
  "py_lower c = (let n = (of_char c :: nat) in
     if (65 \<le> n \<and> n \<le> 90) \<or> (192 \<le> n \<and> n \<le> 222 \<and> n \<noteq> 215)
     then char_of (n + 32) else c)"

definition strip :: "string \<Rightarrow> string" where
  "strip s = rev (dropWhile is_space (rev (dropWhile is_space s)))"

definition is_linebreak :: "char \<Rightarrow> bool" where
  "is_linebreak c = (let n = (of_char c :: nat) in
     (10 \<le> n \<and> n \<le> 13) \<or> (28 \<le> n \<and> n \<le> 30) \<or> n = 133)"

text \<open>\<^verbatim>\<open>text.splitlines()\<close>: a carriage return followed by a line feed is one boundary.\<close>

fun splitlines_from :: "string \<Rightarrow> string \<Rightarrow> string list" where
  "splitlines_from cur [] = (if cur = [] then [] else [cur])"
| "splitlines_from cur [c] = (if is_linebreak c then [cur] else [cur @ [c]])"
| "splitlines_from cur (c # d # cs) =
     (if c = CHR 0x0D \<and> d = CHR 0x0A then cur # splitlines_from [] cs
      else if is_linebreak c then cur # splitlines_from [] (d # cs)
      else splitlines_from (cur @ [c]) (d # cs))"

definition splitlines :: "string \<Rightarrow> string list" where
  "splitlines text = splitlines_from [] text"

text \<open>\<^verbatim>\<open>TAG_RE.fullmatch(s)\<close> for \<^verbatim>\<open>TAG_RE = ^[A-Z]{2}\s*$\<close>.\<close>

definition TAG_RE_fullmatch :: "string \<Rightarrow> bool" where
  "TAG_RE_fullmatch s =
     (case s of
        a # b # rest \<Rightarrow> is_upper_AZ a \<and> is_upper_AZ b \<and> list_all is_space rest
      | _ \<Rightarrow> False)"

text \<open>
  The loop of \<^verbatim>\<open>tokenize_blocks\<close> over the remaining lines, with the generator's state
  \<open>cur_tag\<close> and \<open>cur\<close>; the result is the list of the pairs it yields. A tag line
  yields the open block; the tag \<^verbatim>\<open>EN\<close> then leaves the loop, and the final test of
  the generator yields nothing for it.
\<close>

fun tokenize_loop ::
    "string list \<Rightarrow> string option \<Rightarrow> string list \<Rightarrow> (string \<times> string list) list" where
  "tokenize_loop [] cur_tag cur =
     (case cur_tag of None \<Rightarrow> [] | Some t \<Rightarrow> if t \<noteq> ''EN'' then [(t, cur)] else [])"
| "tokenize_loop (line # lns) cur_tag cur =
     (let s = strip line in
      if TAG_RE_fullmatch s then
        (case cur_tag of
           None \<Rightarrow> (if s = ''EN'' then [] else tokenize_loop lns (Some s) cur)
         | Some t \<Rightarrow> (t, cur) # (if s = ''EN'' then [] else tokenize_loop lns (Some s) []))
      else
        (case cur_tag of
           None \<Rightarrow> tokenize_loop lns cur_tag cur
         | Some t \<Rightarrow> tokenize_loop lns cur_tag (cur @ [line])))"

definition tokenize_blocks :: "string \<Rightarrow> (string \<times> string list) list" where
  "tokenize_blocks text = tokenize_loop (splitlines text) None []"

section \<open>Numeric tokens\<close>

text \<open>
  \<^verbatim>\<open>re.findall(FLOAT_RE, line)\<close> for \<^verbatim>\<open>FLOAT_RE = [+-]?\d+(?:[.,]\d+)?\<close>.
  \<open>match_float s\<close> is the match of the expression at the start of \<open>s\<close>, with the rest
  of the string: the digits are taken greedily, the fraction only when a digit follows the
  separator, and a sign that no digit follows matches nothing. The scan resumes behind a
  match and one character further where there is none.
\<close>

definition match_unsigned :: "string \<Rightarrow> (string \<times> string) option" where
  "match_unsigned s =
     (let ds = takeWhile is_digit s; r = dropWhile is_digit s in
      if ds = [] then None
      else case r of
             [] \<Rightarrow> Some (ds, r)
           | c # r' \<Rightarrow>
               if (c = CHR ''.'' \<or> c = CHR '','') \<and> takeWhile is_digit r' \<noteq> []
               then Some (ds @ c # takeWhile is_digit r', dropWhile is_digit r')
               else Some (ds, r))"

definition match_float :: "string \<Rightarrow> (string \<times> string) option" where
  "match_float s =
     (case s of
        [] \<Rightarrow> None
      | c # cs \<Rightarrow>
          if c = CHR ''+'' \<or> c = CHR ''-''
          then (case match_unsigned cs of None \<Rightarrow> None | Some (m, r) \<Rightarrow> Some (c # m, r))
          else match_unsigned s)"

function findall_float :: "string \<Rightarrow> string list" where
  "findall_float [] = []"
| "findall_float (c # cs) =
     (case match_float (c # cs) of
        Some (m, r) \<Rightarrow> m # findall_float r
      | None \<Rightarrow> findall_float cs)"
  by pat_completeness auto
termination
proof (relation "measure length")
  show "wf (measure length)" by simp
next
  fix c :: char and cs x2 m r
  assume h: "match_float (c # cs) = Some x2" "(m, r) = x2"
  have mu: "length r' < length s" if "match_unsigned s = Some (m', r')" for s m' r'
  proof -
    let ?r = "dropWhile is_digit s"
    from that have ne: "takeWhile is_digit s \<noteq> []"
      by (simp add: match_unsigned_def Let_def split: if_splits)
    have "length (takeWhile is_digit s) + length ?r = length s"
      by (metis length_append takeWhile_dropWhile_id)
    with ne have lt: "length ?r < length s" by (cases "takeWhile is_digit s") simp_all
    have "length r' \<le> length ?r"
    proof (cases ?r)
      case Nil
      with that ne show ?thesis by (simp add: match_unsigned_def Let_def)
    next
      case (Cons d r'')
      from that ne Cons have "r' = dropWhile is_digit r'' \<or> r' = d # r''"
        by (auto simp add: match_unsigned_def Let_def split: if_splits)
      moreover have "length (dropWhile is_digit r'') \<le> length r''"
        by (rule length_dropWhile_le)
      ultimately show ?thesis using Cons by auto
    qed
    with lt show ?thesis by simp
  qed
  have "length r < length (c # cs)"
  proof (cases "c = CHR ''+'' \<or> c = CHR ''-''")
    case True
    with h obtain m' where "match_unsigned cs = Some (m', r)"
      by (auto simp add: match_float_def split: option.splits)
    from mu [OF this] show ?thesis by simp
  next
    case False
    with h have "match_unsigned (c # cs) = Some (m, r)"
      by (auto simp add: match_float_def)
    from mu [OF this] show ?thesis .
  qed
  then show "(r, c # cs) \<in> measure length" by simp
next
  fix c :: char and cs
  show "(cs, c # cs) \<in> measure length" by simp
qed

text \<open>
  \<^verbatim>\<open>fnum(s) = float(s.replace(",", "."))\<close>, with \<open>comma_to_dot\<close> for the
  replacement. \<open>py_float\<close> is \<^verbatim>\<open>float()\<close> on the decimal
  literals \<^verbatim>\<open>[+-]?\d+(\.\d+)?\<close>, the only strings the converter passes to it
  (\<open>findall_float_fnum\<close> below); every other string is a \<open>ValueError\<close> here.
\<close>

definition digits_val :: "string \<Rightarrow> nat" where
  "digits_val ds = foldl (\<lambda>a c. 10 * a + (of_char c - 48)) 0 ds"

definition unsigned_val :: "string \<Rightarrow> py_error + real" where
  "unsigned_val s =
     (let ip = takeWhile is_digit s; r = dropWhile is_digit s in
      if ip = [] then Inl ValueError
      else case r of
             [] \<Rightarrow> Inr (real (digits_val ip))
           | c # fp \<Rightarrow>
               if c = CHR ''.'' \<and> fp \<noteq> [] \<and> list_all is_digit fp
               then Inr (real (digits_val ip) + real (digits_val fp) / 10 ^ length fp)
               else Inl ValueError)"

definition py_float :: "string \<Rightarrow> py_error + real" where
  "py_float s =
     (case s of
        [] \<Rightarrow> Inl ValueError
      | c # cs \<Rightarrow>
          if c = CHR ''-'' then py_bind (unsigned_val cs) (\<lambda>v. Inr (- v))
          else if c = CHR ''+'' then unsigned_val cs
          else unsigned_val s)"

definition comma_to_dot :: "string \<Rightarrow> string" where
  "comma_to_dot s = map (\<lambda>c. if c = CHR '','' then CHR ''.'' else c) s"

definition fnum :: "string \<Rightarrow> py_error + real" where
  "fnum s = py_float (comma_to_dot s)"

section \<open>Contour points and bore records\<close>

text \<open>The body of the loop of \<^verbatim>\<open>parse_points_k\<close> on one line, and the loop.\<close>

definition points_line :: "string \<Rightarrow> xyk list \<Rightarrow> py_error + xyk list" where
  "points_line line pts =
     (let nums = findall_float line in
      if 2 \<le> length nums then
        py_bind (fnum (nums ! 0)) (\<lambda>x.
        py_bind (fnum (nums ! 1)) (\<lambda>y.
        py_bind (if 3 \<le> length nums then fnum (nums ! 2) else Inr 0) (\<lambda>k.
          Inr (pts @ [(x, y, k)]))))
      else Inr pts)"

fun points_loop :: "string list \<Rightarrow> xyk list \<Rightarrow> py_error + xyk list" where
  "points_loop [] pts = Inr pts"
| "points_loop (line # lns) pts = py_bind (points_line line pts) (points_loop lns)"

definition parse_points_k :: "string list \<Rightarrow> py_error + xyk list" where
  "parse_points_k block_lines = points_loop block_lines []"

text \<open>
  The bore records of \<^verbatim>\<open>generate_dxf_from_nc_text\<close>: the tuples
  \<^verbatim>\<open>("slot", c1, c2, dia)\<close> and \<^verbatim>\<open>("circle", (x, y), None, dia)\<close>.
\<close>

datatype bo_item = Slot_item point point real | Circle_item point real

definition bo_line :: "string \<Rightarrow> bo_item list \<Rightarrow> py_error + bo_item list" where
  "bo_line line bo_items =
     (let nums = findall_float line;
          is_slot = (CHR ''l'' \<in> set (map py_lower line)) in
      if is_slot \<and> 6 \<le> length nums then
        py_bind (fnum (nums ! 0)) (\<lambda>x.
        py_bind (fnum (nums ! 1)) (\<lambda>y.
        py_bind (fnum (nums ! 2)) (\<lambda>dia.
        py_bind (fnum (nums ! 4)) (\<lambda>dx.
        py_bind (fnum (nums ! 5)) (\<lambda>dy.
          let c1 = (x, y); c2 = (x + dx, y + dy) in
          Inr (bo_items @ [Slot_item c1 c2 dia]))))))
      else if 3 \<le> length nums then
        py_bind (fnum (nums ! 0)) (\<lambda>x.
        py_bind (fnum (nums ! 1)) (\<lambda>y.
        py_bind (fnum (nums ! 2)) (\<lambda>dia.
          Inr (bo_items @ [Circle_item (x, y) dia]))))
      else Inr bo_items)"

fun bo_loop :: "string list \<Rightarrow> bo_item list \<Rightarrow> py_error + bo_item list" where
  "bo_loop [] bo_items = Inr bo_items"
| "bo_loop (line # lns) bo_items = py_bind (bo_line line bo_items) (bo_loop lns)"

section \<open>Assembling the drawing\<close>

text \<open>
  \<^verbatim>\<open>generate_dxf_from_nc_text\<close>: the first loop reads the blocks into \<open>outer_pts\<close>,
  \<open>inner_contours\<close> and \<open>bo_items\<close>; then the entities are added to the modelspace,
  the outer contour first, the inner contours next, the bores last. Layers, document
  metadata and the saved file belong to the drawing library and are left out: the result
  is the modelspace.
\<close>

record blocks_state =
  outer_pts :: "xyk list option"
  inner_contours :: "xyk list list"
  bo_items :: "bo_item list"

definition read_block :: "string \<times> string list \<Rightarrow> blocks_state \<Rightarrow> py_error + blocks_state" where
  "read_block blk st =
     (let (tag, lns) = blk in
      if tag = ''AK'' then
        py_bind (parse_points_k lns) (\<lambda>pts. Inr (st\<lparr>outer_pts := Some pts\<rparr>))
      else if tag = ''IK'' then
        py_bind (parse_points_k lns) (\<lambda>pts.
          Inr (if pts \<noteq> [] then st\<lparr>inner_contours := inner_contours st @ [pts]\<rparr> else st))
      else if tag = ''BO'' then
        py_bind (bo_loop lns (bo_items st)) (\<lambda>items. Inr (st\<lparr>bo_items := items\<rparr>))
      else Inr st)"

fun read_blocks :: "(string \<times> string list) list \<Rightarrow> blocks_state \<Rightarrow> py_error + blocks_state" where
  "read_blocks [] st = Inr st"
| "read_blocks (blk # blks) st = py_bind (read_block blk st) (read_blocks blks)"

definition add_outer :: "entity list \<Rightarrow> xyk list option \<Rightarrow> py_error + entity list" where
  "add_outer msp opts =
     (case opts of
        None \<Rightarrow> Inr msp
      | Some pts \<Rightarrow>
          if pts \<noteq> [] then
            py_bind (build_xyb_from_points pts) (\<lambda>vs.
              Inr (if vs \<noteq> [] then add_lwpolyline msp vs True ''OUTER'' else msp))
          else Inr msp)"

fun add_inner :: "entity list \<Rightarrow> xyk list list \<Rightarrow> py_error + entity list" where
  "add_inner msp [] = Inr msp"
| "add_inner msp (pts # rest) =
     py_bind (build_xyb_from_points pts) (\<lambda>iverts.
       add_inner (if iverts \<noteq> [] then add_lwpolyline msp iverts True ''cutout'' else msp) rest)"

definition add_bo_item :: "entity list \<Rightarrow> bo_item \<Rightarrow> py_error + entity list" where
  "add_bo_item msp item =
     (case item of
        Circle_item c dia \<Rightarrow>
          (let (x, y) = c; r = dia / 2 in
           if r > 0 then Inr (add_circle msp (x, y) r ''cutout'') else Inr msp)
      | Slot_item c1 c2 dia \<Rightarrow> add_slot_capsule msp c1 c2 dia ''cutout'')"

fun add_bo_items :: "entity list \<Rightarrow> bo_item list \<Rightarrow> py_error + entity list" where
  "add_bo_items msp [] = Inr msp"
| "add_bo_items msp (item # rest) = py_bind (add_bo_item msp item) (\<lambda>msp'. add_bo_items msp' rest)"

definition assemble :: "(string \<times> string list) list \<Rightarrow> py_error + entity list" where
  "assemble blocks =
     py_bind (read_blocks blocks \<lparr>outer_pts = None, inner_contours = [], bo_items = []\<rparr>) (\<lambda>st.
     py_bind (add_outer [] (outer_pts st)) (\<lambda>msp1.
     py_bind (add_inner msp1 (inner_contours st)) (\<lambda>msp2.
       add_bo_items msp2 (bo_items st))))"

definition generate_dxf_from_nc_text :: "string \<Rightarrow> py_error + entity list" where
  "generate_dxf_from_nc_text txt = assemble (tokenize_blocks txt)"


section \<open>The properties, as the specification words them\<close>

text \<open>
  The bulge the specification gives for point \<open>i\<close> of a contour, indices modulo the
  number of points: \<open>0\<close> below the threshold, otherwise \<open>tan (\<theta> / 4)\<close> with the sign
  of \<open>k\<close>, for \<open>\<theta> = 2 asin (clamp (d / (2 |k|)))\<close> and the chord \<open>d\<close> to the next point.
\<close>

definition spec_bulge :: "xyk list \<Rightarrow> nat \<Rightarrow> real" where
  "spec_bulge pts i =
     (let n = length pts;
          (x, y, k) = pts ! (i mod n);
          (x2, y2, k2) = pts ! ((i + 1) mod n);
          d = sqrt ((x2 - x)\<^sup>2 + (y2 - y)\<^sup>2);
          theta = 2 * arcsin (max (- 1) (min 1 (d / (2 * \<bar>k\<bar>))))
      in if \<bar>k\<bar> < 1 / 10 ^ 9 then 0
         else if k > 0 then tan (theta / 4) else - tan (theta / 4))"

text \<open>The sign law as the specification states it, for all points of a contour.\<close>

definition sign_law :: "xyk list \<Rightarrow> bool" where
  "sign_law pts =
     (case build_xyb_from_points pts of
        Inl e \<Rightarrow> False
      | Inr out \<Rightarrow> list_all2 (\<lambda>(x, y, k) (x', y', b).
            (k > 0 \<longrightarrow> b > 0) \<and> (k < 0 \<longrightarrow> b < 0) \<and>
            (\<bar>k\<bar> < 1 / 10 ^ 9 \<or> k = 0 \<longrightarrow> b = 0)) pts out)"

text \<open>
  The arguments of the calls of \<^verbatim>\<open>bulge_from_points_radius\<close> that
  \<^verbatim>\<open>build_xyb_from_points\<close> makes, in order: one for each index whose curvature is
  not below the threshold.
\<close>

definition bulge_calls :: "xyk list \<Rightarrow> (point \<times> point \<times> real \<times> bool) list" where
  "bulge_calls pts =
     (let n = length pts in
      if n < 2 then []
      else concat (map (\<lambda>i.
             let (x, y, k) = pts ! i; (x2, y2, k2) = pts ! ((i + 1) mod n) in
             if \<bar>k\<bar> < EPS then [] else [((x, y), (x2, y2), \<bar>k\<bar>, k > 0)]) [0..<n]))"

text \<open>
  The outline the specification gives for a slot: with \<open>L\<close> the distance of the centers,
  \<open>r\<close> half the diameter, the unit axis \<open>(vx, vy) = (c2 - c1) / L\<close> and the normal
  \<open>(nx, ny) = (-vy, vx)\<close>, the vertices \<open>c1 - r n\<close>, \<open>c2 - r n\<close>, \<open>c2 + r n\<close>,
  \<open>c1 + r n\<close> with the bulges \<open>0, 1, 0, 1\<close>.
\<close>

definition spec_slot_outline :: "point \<Rightarrow> point \<Rightarrow> real \<Rightarrow> xyb list" where
  "spec_slot_outline c1 c2 dia =
     (let L = sqrt ((fst c2 - fst c1)\<^sup>2 + (snd c2 - snd c1)\<^sup>2);
          r = dia / 2;
          vx = (fst c2 - fst c1) / L; vy = (snd c2 - snd c1) / L;
          nx = - vy; ny = vx in
      [(fst c1 - r * nx, snd c1 - r * ny, 0), (fst c2 - r * nx, snd c2 - r * ny, 1),
       (fst c2 + r * nx, snd c2 + r * ny, 0), (fst c1 + r * nx, snd c1 + r * ny, 1)])"

text \<open>
  The tokenizer: a tag line is a line whose trimmed content matches the tag expression;
  the lines before the first tag line are the ones the tokenizer reads and drops; the
  lines before the first \<^verbatim>\<open>EN\<close> tag line are the ones it reads without leaving its
  loop.
\<close>

definition is_tag_line :: "string \<Rightarrow> bool" where
  "is_tag_line line = TAG_RE_fullmatch (strip line)"

definition pre_tag_lines :: "string list \<Rightarrow> string list" where
  "pre_tag_lines lns = takeWhile (\<lambda>l. \<not> is_tag_line l) lns"

definition lines_before_EN :: "string list \<Rightarrow> string list" where
  "lines_before_EN lns = takeWhile (\<lambda>l. strip l \<noteq> ''EN'') lns"

text \<open>A tag line as the tokenizer keeps it: trimmed, as the tag of the block it opens.\<close>

definition trim_tag_line :: "string \<Rightarrow> string" where
  "trim_tag_line line = (if is_tag_line line then strip line else line)"

text \<open>
  The blocks tagged \<^verbatim>\<open>AK\<close>, a block list without the \<^verbatim>\<open>AK\<close> blocks that another
  \<^verbatim>\<open>AK\<close> block follows, and the entities of a modelspace on the layer \<^verbatim>\<open>OUTER\<close>.
\<close>

definition is_AK :: "string \<times> string list \<Rightarrow> bool" where
  "is_AK blk = (fst blk = ''AK'')"

fun keep_last_AK :: "(string \<times> string list) list \<Rightarrow> (string \<times> string list) list" where
  "keep_last_AK [] = []"
| "keep_last_AK (blk # blks) =
     (if is_AK blk \<and> list_ex is_AK blks then keep_last_AK blks else blk # keep_last_AK blks)"

definition OUTER_group :: "entity list \<Rightarrow> entity list" where
  "OUTER_group msp = filter (\<lambda>e. layer e = ''OUTER'') msp"

section \<open>Bulge geometry: the loop and its vertices\<close>

lemma py_bind_Inr: "py_bind (Inr v) f = f v"
  by (simp add: py_bind_def)

lemma EPS_pos: "0 < EPS"
  by (simp add: EPS_def)

lemma math_dist_sym: "math_dist (x, y) (x2, y2) = sqrt ((x2 - x)\<^sup>2 + (y2 - y)\<^sup>2)"
  by (simp add: math_dist_def power2_commute)

lemma bulge_main_branch:
  assumes "\<not> r < EPS"
  shows "bulge_from_points_radius p1 p2 r ccw =
           Inr ((if ccw then 1 else - 1) *
                tan (2 * arcsin (max (- 1) (min 1 (math_dist p1 p2 / (2 * r)))) / 4))"
proof -
  from assms EPS_pos have "2 * r \<noteq> 0" by simp
  then show ?thesis
    using assms
    by (simp add: bulge_from_points_radius_def truediv_def math_asin_def py_bind_def Let_def)
qed

lemma xyb_at_total:
  "xyb_at pts i = Inr (fst (pts ! i), fst (snd (pts ! i)),
       (let k = snd (snd (pts ! i)) in
        if \<bar>k\<bar> < EPS then 0
        else (if k > 0 then 1 else - 1) *
             tan (2 * arcsin (max (- 1) (min 1
               (math_dist (fst (pts ! i), fst (snd (pts ! i)))
                          (fst (pts ! ((i + 1) mod length pts)), fst (snd (pts ! ((i + 1) mod length pts))))
                / (2 * \<bar>k\<bar>)))) / 4)))"
  by (simp add: xyb_at_def Let_def split_beta bulge_main_branch py_bind_def)

lemma xyb_at_Inr: "xyb_at pts i = Inr (projr (xyb_at pts i))"
  by (simp add: xyb_at_total)

lemma xyb_loop_map: "xyb_loop pts js out = Inr (out @ map (\<lambda>i. projr (xyb_at pts i)) js)"
proof (induction js arbitrary: out)
  case Nil
  show ?case by simp
next
  case (Cons j js)
  obtain v where v: "xyb_at pts j = Inr v"
    using xyb_at_total by blast
  then have "xyb_loop pts (j # js) out = xyb_loop pts js (out @ [projr (xyb_at pts j)])"
    by (simp add: py_bind_def)
  then show ?case by (simp add: Cons.IH)
qed

lemma build_total:
  "build_xyb_from_points pts =
     Inr (if length pts < 2 then [] else map (\<lambda>i. projr (xyb_at pts i)) [0..<length pts])"
  by (simp add: build_xyb_from_points_def Let_def xyb_loop_map)

lemma xyb_at_bulge: "i < length pts \<Longrightarrow> snd (snd (projr (xyb_at pts i))) = spec_bulge pts i"
  by (simp add: xyb_at_total spec_bulge_def Let_def split_beta EPS_def math_dist_sym)

lemma sqrt_100: "sqrt 100 = 10"
  by (rule real_sqrt_unique) simp_all

lemma quad_example:
  "build_xyb_from_points [(0, 0, 0), (10, 0, 5), (10, 10, 0), (0, 10, - 5)] =
     Inr [(0, 0, 0), (10, 0, 1), (10, 10, 0), (0, 10, - 1)]"
  by (simp add: build_xyb_from_points_def upt_rec xyb_at_def EPS_def py_bind_def
      bulge_from_points_radius_def truediv_def math_asin_def math_dist_def sqrt_100 tan_45)

lemma bulge_value_sign:
  fixes d r :: real
  assumes r: "EPS \<le> r" and d: "0 \<le> d"
  defines "b \<equiv> tan (2 * arcsin (max (- 1) (min 1 (d / (2 * r)))) / 4)"
  shows "0 < d \<Longrightarrow> 0 < b" and "d = 0 \<Longrightarrow> b = 0"
proof -
  let ?a = "max (- 1) (min 1 (d / (2 * r)))"
  from r EPS_pos have rpos: "0 < r" by simp
  then have q: "0 \<le> d / (2 * r)" using d by simp
  then have a: "0 \<le> ?a" "?a \<le> 1" by simp_all
  have hi: "arcsin ?a \<le> pi / 2"
    using arcsin_bounded [of ?a] a by simp
  have beq: "b = tan (arcsin ?a / 2)" by (simp add: b_def)
  show "0 < b" if "0 < d"
  proof -
    from that rpos have "0 < d / (2 * r)" by simp
    then have "0 < ?a" by simp
    then have "0 < arcsin ?a"
      using arcsin_less_arcsin [of 0 ?a] a by simp
    then have "0 < tan (arcsin ?a / 2)"
      using hi pi_gt_zero by (intro tan_gt_zero) simp_all
    then show ?thesis by (simp add: beq)
  qed
  show "b = 0" if "d = 0"
    using that by (simp add: b_def)
qed

lemma math_dist_nonneg: "0 \<le> math_dist p q"
  by (simp add: math_dist_def)

lemma math_dist_zero_iff: "math_dist p q = 0 \<longleftrightarrow> p = q"
  by (auto simp add: math_dist_def prod_eq_iff sum_power2_eq_zero_iff)

section \<open>Claims on the bulge geometry\<close>

text \<open>
  C1. For a contour of at least two points, the bulge emitted at point \<open>i\<close> is the one the
  specification gives: \<open>0\<close> when \<open>|k\<^sub>i| < 1e-9\<close>, otherwise \<open>tan (\<theta> / 4)\<close>, positive for
  \<open>k\<^sub>i > 0\<close> and negated for \<open>k\<^sub>i < 0\<close>, with \<open>\<theta> = 2 asin (clamp (d / (2 |k\<^sub>i|), -1, 1))\<close>
  and \<open>d\<close> the distance from point \<open>i\<close> to point \<open>i + 1\<close> modulo the length. The closed
  quad \<open>(0,0,k=0), (10,0,k=5), (10,10,k=0), (0,10,k=-5)\<close> gives the bulges \<open>0, 1, 0, -1\<close>.
\<close>

theorem bulge_formula:
  "(2 \<le> length pts \<longrightarrow>
      (\<exists>out. build_xyb_from_points pts = Inr out \<and> length out = length pts \<and>
             (\<forall>i < length pts. snd (snd (out ! i)) = spec_bulge pts i))) \<and>
   build_xyb_from_points [(0, 0, 0), (10, 0, 5), (10, 10, 0), (0, 10, - 5)] =
     Inr [(0, 0, 0), (10, 0, 1), (10, 10, 0), (0, 10, - 1)]"
proof (intro conjI impI)
  assume "2 \<le> length pts"
  then show "\<exists>out. build_xyb_from_points pts = Inr out \<and> length out = length pts \<and>
             (\<forall>i < length pts. snd (snd (out ! i)) = spec_bulge pts i)"
    by (simp add: build_total xyb_at_bulge)
next
  show "build_xyb_from_points [(0, 0, 0), (10, 0, 5), (10, 10, 0), (0, 10, - 5)] =
     Inr [(0, 0, 0), (10, 0, 1), (10, 10, 0), (0, 10, - 1)]"
    by (rule quad_example)
qed


theorem bulge_formula_witness:
  "\<exists>out. build_xyb_from_points [(1, 1, 0), (4, 5, 5)] = Inr out \<and> length out = 2 \<and>
         (\<forall>i < 2. snd (snd (out ! i)) = spec_bulge [(1, 1, 0), (4, 5, 5)] i)"
  using bulge_formula [of "[(1, 1, 0), (4, 5, 5)]"] by (simp add: numeral_2_eq_2)

text \<open>
  C2. For a contour of at least two points the engine returns one vertex for each input
  point, in the same order, and each vertex carries the \<open>(x, y)\<close> of its point unchanged.
\<close>

theorem xy_preserved:
  "2 \<le> length pts \<Longrightarrow>
     \<exists>out. build_xyb_from_points pts = Inr out \<and> length out = length pts \<and>
           map (\<lambda>(x, y, b). (x, y)) out = map (\<lambda>(x, y, k). (x, y)) pts"
  by (auto simp add: build_total xyb_at_total split_beta intro!: nth_equalityI)



theorem xy_preserved_witness:
  "\<exists>out. build_xyb_from_points [(1, 1, 0), (4, 5, 5)] = Inr out \<and> length out = 2 \<and>
         map (\<lambda>(x, y, b). (x, y)) out = [(1, 1), (4, 5)]"
  using xy_preserved [of "[(1, 1, 0), (4, 5, 5)]"] by (simp add: numeral_2_eq_2)

text \<open>
  C3. The sign law as stated (\<open>k > 0\<close> gives a bulge \<open>> 0\<close>, \<open>k < 0\<close> a bulge \<open>< 0\<close>,
  \<open>|k| < 1e-9\<close> or \<open>k = 0\<close> a bulge \<open>0\<close>) fails on a contour whose point with \<open>k = 5\<close> is
  followed by the same point (the chord is \<open>0\<close>, so is the bulge), and on a contour with
  \<open>0 < k < 1e-9\<close> (the bulge is \<open>0\<close>, not positive).
\<close>

theorem sign_law_counterexample:
  "\<not> sign_law [(0, 0, 5), (0, 0, 5)] \<and> \<not> sign_law [(0, 0, 1 / 10 ^ 10), (1, 0, 0)]"
  by (simp add: sign_law_def build_xyb_from_points_def upt_rec xyb_at_def EPS_def py_bind_def
      bulge_from_points_radius_def truediv_def math_asin_def math_dist_def)


text \<open>
  C3, amended. For point \<open>i\<close> of a contour of at least two points: the bulge is \<open>0\<close> when
  \<open>|k| < 1e-9\<close> and when the next point has the same coordinates; it is \<open>> 0\<close> when
  \<open>k \<ge> 1e-9\<close> and \<open>< 0\<close> when \<open>k \<le> -1e-9\<close>, the next point having other coordinates.
\<close>

theorem sign_law_amended:
  assumes "2 \<le> length pts" and "i < length pts"
    and "pts ! i = (x, y, k)" and "pts ! ((i + 1) mod length pts) = (x2, y2, k2)"
  shows "\<exists>out. build_xyb_from_points pts = Inr out \<and> length out = length pts \<and>
           (let b = snd (snd (out ! i)) in
              (\<bar>k\<bar> < EPS \<longrightarrow> b = 0) \<and>
              ((x, y) = (x2, y2) \<longrightarrow> b = 0) \<and>
              (EPS \<le> k \<and> (x, y) \<noteq> (x2, y2) \<longrightarrow> 0 < b) \<and>
              (k \<le> - EPS \<and> (x, y) \<noteq> (x2, y2) \<longrightarrow> b < 0))"
proof -
  let ?d = "math_dist (x, y) (x2, y2)"
  let ?t = "tan (2 * arcsin (max (- 1) (min 1 (?d / (2 * \<bar>k\<bar>)))) / 4)"
  have b: "snd (snd (projr (xyb_at pts i))) =
             (if \<bar>k\<bar> < EPS then 0 else (if k > 0 then 1 else - 1) * ?t)"
    using assms(3,4) by (simp add: xyb_at_total)
  have d0: "0 \<le> ?d" by (rule math_dist_nonneg)
  have dz: "?d = 0" if "(x, y) = (x2, y2)"
    using that math_dist_zero_iff [of "(x, y)" "(x2, y2)"] by simp
  have dp: "0 < ?d" if "(x, y) \<noteq> (x2, y2)"
    using that math_dist_zero_iff [of "(x, y)" "(x2, y2)"] d0 by linarith
  have t0: "?t = 0" if "(x, y) = (x2, y2)"
    using dz [OF that] by simp
  have tp: "0 < ?t" if "EPS \<le> \<bar>k\<bar>" "(x, y) \<noteq> (x2, y2)"
    using bulge_value_sign(1) [OF that(1) d0 dp [OF that(2)]] .
  have "(\<bar>k\<bar> < EPS \<longrightarrow> snd (snd (projr (xyb_at pts i))) = 0) \<and>
        ((x, y) = (x2, y2) \<longrightarrow> snd (snd (projr (xyb_at pts i))) = 0) \<and>
        (EPS \<le> k \<and> (x, y) \<noteq> (x2, y2) \<longrightarrow> 0 < snd (snd (projr (xyb_at pts i)))) \<and>
        (k \<le> - EPS \<and> (x, y) \<noteq> (x2, y2) \<longrightarrow> snd (snd (projr (xyb_at pts i))) < 0)"
  proof (intro conjI impI)
    assume "\<bar>k\<bar> < EPS" then show "snd (snd (projr (xyb_at pts i))) = 0" by (simp add: b)
  next
    assume "(x, y) = (x2, y2)"
    then show "snd (snd (projr (xyb_at pts i))) = 0" using t0 by (simp add: b)
  next
    assume h: "EPS \<le> k \<and> (x, y) \<noteq> (x2, y2)"
    with EPS_pos have "0 < k" "EPS \<le> \<bar>k\<bar>" by simp_all
    with tp h show "0 < snd (snd (projr (xyb_at pts i)))" by (simp add: b)
  next
    assume h: "k \<le> - EPS \<and> (x, y) \<noteq> (x2, y2)"
    with EPS_pos have "k < 0" "EPS \<le> \<bar>k\<bar>" by simp_all
    with tp h show "snd (snd (projr (xyb_at pts i))) < 0" by (simp add: b)
  qed
  then show ?thesis
    using assms(1,2) by (simp add: build_total Let_def)
qed


theorem sign_law_amended_witness:
  "\<exists>out. build_xyb_from_points [(0, 0, 5), (10, 0, - 5)] = Inr out \<and> length out = 2 \<and>
         0 < snd (snd (out ! 0))"
  using sign_law_amended [of "[(0, 0, 5), (10, 0, - 5)]" 0 0 0 5 10 0 "- 5"]
  by (simp add: EPS_def numeral_2_eq_2)

text \<open>
  C9. The engine returns a vertex list for every list of triples. At each call of
  \<^verbatim>\<open>bulge_from_points_radius\<close> it makes, the radius is at least \<open>1e-9\<close>, so the
  call does not return through the \<open>r < EPS\<close> branch: the division is defined, the
  argument of \<^verbatim>\<open>asin\<close> lies in \<open>[-1, 1]\<close>, \<open>\<theta>\<close> lies in \<open>[-\<pi>, \<pi>]\<close>, the tangent of
  \<open>\<theta> / 4\<close> is defined, and the call returns that tangent with the sign of the direction.
\<close>

theorem bulge_engine_total:
  "(\<exists>out. build_xyb_from_points pts = Inr out) \<and>
   (\<forall>(p1, p2, r, ccw) \<in> set (bulge_calls pts).
      EPS \<le> r \<and>
      (\<exists>q a. truediv (math_dist p1 p2) (2 * r) = Inr q \<and>
             - 1 \<le> max (- 1) (min 1 q) \<and> max (- 1) (min 1 q) \<le> 1 \<and>
             math_asin (max (- 1) (min 1 q)) = Inr a \<and>
             - pi \<le> 2 * a \<and> 2 * a \<le> pi \<and> cos (2 * a / 4) \<noteq> 0 \<and>
             bulge_from_points_radius p1 p2 r ccw = Inr (if ccw then tan (2 * a / 4) else - tan (2 * a / 4))))"
proof (intro conjI)
  show "\<exists>out. build_xyb_from_points pts = Inr out"
    by (simp add: build_total)
next
  have step: "EPS \<le> r \<Longrightarrow>
      (\<exists>q a. truediv (math_dist p1 p2) (2 * r) = Inr q \<and>
             - 1 \<le> max (- 1) (min 1 q) \<and> max (- 1) (min 1 q) \<le> 1 \<and>
             math_asin (max (- 1) (min 1 q)) = Inr a \<and>
             - pi \<le> 2 * a \<and> 2 * a \<le> pi \<and> cos (2 * a / 4) \<noteq> 0 \<and>
             bulge_from_points_radius p1 p2 r ccw = Inr (if ccw then tan (2 * a / 4) else - tan (2 * a / 4)))"
    for p1 p2 r ccw
  proof -
    assume r: "EPS \<le> r"
    let ?q = "math_dist p1 p2 / (2 * r)"
    let ?arg = "max (- 1) (min 1 ?q)"
    from r EPS_pos have nz: "2 * r \<noteq> 0" by simp
    have arg: "- 1 \<le> ?arg" "?arg \<le> 1" by simp_all
    have bnd: "- (pi / 2) \<le> arcsin ?arg" "arcsin ?arg \<le> pi / 2"
      using arcsin_bounded [OF arg] by simp_all
    have "- (pi / 2) < arcsin ?arg / 2" "arcsin ?arg / 2 < pi / 2"
      using bnd pi_gt_zero by linarith+
    then have "0 < cos (arcsin ?arg / 2)" by (rule cos_gt_zero_pi)
    then have c: "cos (2 * arcsin ?arg / 4) \<noteq> 0" by simp
    have "truediv (math_dist p1 p2) (2 * r) = Inr ?q" using nz by (simp add: truediv_def)
    moreover have "math_asin ?arg = Inr (arcsin ?arg)" by (simp add: math_asin_def)
    moreover have "bulge_from_points_radius p1 p2 r ccw =
        Inr (if ccw then tan (2 * arcsin ?arg / 4) else - tan (2 * arcsin ?arg / 4))"
      using r nz by (simp add: bulge_from_points_radius_def truediv_def math_asin_def py_bind_def Let_def)
    ultimately show ?thesis using arg bnd c by (intro exI [of _ ?q] exI [of _ "arcsin ?arg"]) simp
  qed
  have "EPS \<le> r" if "(p1, p2, r, ccw) \<in> set (bulge_calls pts)" for p1 p2 r ccw
    using that by (auto simp add: bulge_calls_def Let_def split_beta split: if_splits)
  with step show "\<forall>(p1, p2, r, ccw) \<in> set (bulge_calls pts).
      EPS \<le> r \<and>
      (\<exists>q a. truediv (math_dist p1 p2) (2 * r) = Inr q \<and>
             - 1 \<le> max (- 1) (min 1 q) \<and> max (- 1) (min 1 q) \<le> 1 \<and>
             math_asin (max (- 1) (min 1 q)) = Inr a \<and>
             - pi \<le> 2 * a \<and> 2 * a \<le> pi \<and> cos (2 * a / 4) \<noteq> 0 \<and>
             bulge_from_points_radius p1 p2 r ccw = Inr (if ccw then tan (2 * a / 4) else - tan (2 * a / 4)))"
    by blast
qed


theorem bulge_engine_total_witness:
  "EPS \<le> 5 \<and>
   (\<exists>q a. truediv (math_dist (0, 0) (10, 0)) (2 * 5) = Inr q \<and>
          math_asin (max (- 1) (min 1 q)) = Inr a \<and>
          - pi \<le> 2 * a \<and> 2 * a \<le> pi \<and> cos (2 * a / 4) \<noteq> 0 \<and>
          bulge_from_points_radius (0, 0) (10, 0) 5 True = Inr (tan (2 * a / 4)))"
  using bulge_engine_total [of "[(0, 0, 5), (10, 0, 0)]"]
  by (simp add: bulge_calls_def upt_rec EPS_def)

section \<open>Numeric tokens always parse\<close>

lemma digit_not_special:
  "is_digit c \<Longrightarrow> c \<noteq> CHR '','' \<and> c \<noteq> CHR ''.'' \<and> c \<noteq> CHR ''+'' \<and> c \<noteq> CHR ''-''"
  by (auto simp add: is_digit_def)

lemma comma_to_dot_digits: "list_all is_digit ds \<Longrightarrow> comma_to_dot ds = ds"
  by (induction ds) (auto simp add: comma_to_dot_def dest: digit_not_special)

lemma comma_to_dot_append: "comma_to_dot (xs @ ys) = comma_to_dot xs @ comma_to_dot ys"
  by (simp add: comma_to_dot_def)

lemma takeWhile_digits: "list_all is_digit (takeWhile is_digit s)"
  by (induction s) simp_all

lemma unsigned_val_int:
  assumes "ds \<noteq> []" "list_all is_digit ds"
  shows "unsigned_val ds = Inr (real (digits_val ds))"
proof -
  from assms(2) have tw: "takeWhile is_digit ds = ds" and dw: "dropWhile is_digit ds = []"
    by (simp_all add: list_all_iff)
  show ?thesis by (simp only: unsigned_val_def Let_def tw dw) (simp add: assms(1))
qed

lemma unsigned_val_frac:
  assumes "ds \<noteq> []" "list_all is_digit ds" "fs \<noteq> []" "list_all is_digit fs"
  shows "unsigned_val (ds @ CHR ''.'' # fs) =
           Inr (real (digits_val ds) + real (digits_val fs) / 10 ^ length fs)"
proof -
  have nd: "\<not> is_digit CHR ''.''" by (simp add: is_digit_def)
  from assms(2) have tw: "takeWhile is_digit (ds @ CHR ''.'' # fs) = ds"
    and dw: "dropWhile is_digit (ds @ CHR ''.'' # fs) = CHR ''.'' # fs"
    using nd by (simp_all add: list_all_iff takeWhile_append2 dropWhile_append2)
  show ?thesis by (simp only: unsigned_val_def Let_def tw dw) (simp add: assms)
qed

lemma match_unsigned_val:
  assumes "match_unsigned s = Some (m, r)"
  shows "(\<exists>v. unsigned_val (comma_to_dot m) = Inr v) \<and> m \<noteq> [] \<and> is_digit (hd m)"
proof -
  let ?ds = "takeWhile is_digit s"
  from assms have ne: "?ds \<noteq> []"
    by (simp add: match_unsigned_def Let_def split: if_splits)
  have dig: "list_all is_digit ?ds" by (rule takeWhile_digits)
  from ne dig have hd: "is_digit (hd ?ds)" by (cases ?ds) simp_all
  from assms ne consider (int) "m = ?ds"
    | (frac) c r' where "m = ?ds @ c # takeWhile is_digit r'" "c = CHR ''.'' \<or> c = CHR '',''"
        "takeWhile is_digit r' \<noteq> []"
    by (auto simp add: match_unsigned_def Let_def split: if_splits list.splits)
  then show ?thesis
  proof cases
    case int
    with ne dig hd show ?thesis
      by (simp add: comma_to_dot_digits unsigned_val_int)
  next
    case frac
    have "comma_to_dot [c] = ''.''"
      using frac(2) by (auto simp add: comma_to_dot_def)
    then have "comma_to_dot m = ?ds @ CHR ''.'' # takeWhile is_digit r'"
      using comma_to_dot_append [of ?ds "[c] @ takeWhile is_digit r'"]
        comma_to_dot_append [of "[c]" "takeWhile is_digit r'"]
      by (simp add: frac(1) comma_to_dot_digits [OF dig] comma_to_dot_digits [OF takeWhile_digits])
    with ne dig frac hd show ?thesis
      using unsigned_val_frac [OF ne dig frac(3) takeWhile_digits] by (simp add: hd_append)
  qed
qed

lemma match_float_fnum:
  assumes "match_float s = Some (m, r)"
  shows "\<exists>v. fnum m = Inr v"
proof (cases s)
  case Nil
  with assms show ?thesis by (simp add: match_float_def)
next
  case (Cons c cs)
  show ?thesis
  proof (cases "c = CHR ''+'' \<or> c = CHR ''-''")
    case True
    with assms Cons obtain m' where m': "match_unsigned cs = Some (m', r)" "m = c # m'"
      by (auto simp add: match_float_def split: option.splits)
    from match_unsigned_val [OF m'(1)] obtain v where "unsigned_val (comma_to_dot m') = Inr v"
      by blast
    with True m'(2) show ?thesis
      by (auto simp add: fnum_def py_float_def comma_to_dot_def py_bind_def)
  next
    case False
    with assms Cons have mu: "match_unsigned s = Some (m, r)"
      by (simp add: match_float_def)
    from match_unsigned_val [OF mu] obtain v where
      v: "unsigned_val (comma_to_dot m) = Inr v" and ne: "m \<noteq> []" and d: "is_digit (hd m)"
      by blast
    from ne obtain a m' where am: "m = a # m'" by (cases m) auto
    with d have "is_digit a" by simp
    then have "a \<noteq> CHR '',''" "a \<noteq> CHR ''+''" "a \<noteq> CHR ''-''"
      using digit_not_special by blast+
    with v am show ?thesis
      by (simp add: fnum_def py_float_def comma_to_dot_def)
  qed
qed

lemma findall_float_fnum: "t \<in> set (findall_float s) \<Longrightarrow> \<exists>v. fnum t = Inr v"
proof (induction s rule: findall_float.induct)
  case 1
  then show ?case by simp
next
  case (2 c cs)
  show ?case
  proof (cases "match_float (c # cs)")
    case None
    with 2 show ?thesis by simp
  next
    case (Some mr)
    obtain m r where mr: "mr = (m, r)" by (cases mr)
    with Some 2 match_float_fnum [of "c # cs" m r] show ?thesis by auto
  qed
qed

lemma fnum_nth: "i < length (findall_float s) \<Longrightarrow> \<exists>v. fnum (findall_float s ! i) = Inr v"
  using findall_float_fnum [of "findall_float s ! i" s] by simp

lemma py_lower_l: "py_lower c = CHR ''l'' \<longleftrightarrow> c = CHR ''l'' \<or> c = CHR ''L''"
proof -
  have "(of_char (py_lower c) :: nat) = 108 \<longleftrightarrow> (of_char c :: nat) = 108 \<or> (of_char c :: nat) = 76"
    by (auto simp add: py_lower_def Let_def)
  moreover have "(of_char d :: nat) = 108 \<longleftrightarrow> d = CHR ''l''" for d
    using of_char_eq_iff [of d "CHR ''l''", where ?'a = nat] by simp
  moreover have "(of_char d :: nat) = 76 \<longleftrightarrow> d = CHR ''L''" for d
    using of_char_eq_iff [of d "CHR ''L''", where ?'a = nat] by simp
  ultimately show ?thesis by simp
qed

lemma is_slot_iff:
  "CHR ''l'' \<in> set (map py_lower line) \<longleftrightarrow> CHR ''l'' \<in> set line \<or> CHR ''L'' \<in> set line"
  by (auto simp add: py_lower_l image_iff) (metis py_lower_l)+

section \<open>Claims on bores and slots\<close>

lemma slot_capsule_outline:
  assumes "EPS \<le> sqrt ((x2 - x1)\<^sup>2 + (y2 - y1)\<^sup>2)"
  shows "add_slot_capsule msp (x1, y1) (x2, y2) dia lay =
           Inr (msp @ [LWPolyline lay (spec_slot_outline (x1, y1) (x2, y2) dia) True])"
proof -
  define L where "L = sqrt ((x2 - x1)\<^sup>2 + (y2 - y1)\<^sup>2)"
  from assms EPS_pos have "0 < L" "EPS \<le> L" unfolding L_def by linarith+
  then have L: "L \<noteq> 0" "\<not> L < EPS" by simp_all
  have hyp: "math_hypot (x2 - x1) (y2 - y1) = L" by (simp add: L_def math_hypot_def)
  have spec: "spec_slot_outline (x1, y1) (x2, y2) dia =
      [(x1 - dia / 2 * - ((y2 - y1) / L), y1 - dia / 2 * ((x2 - x1) / L), 0),
       (x2 - dia / 2 * - ((y2 - y1) / L), y2 - dia / 2 * ((x2 - x1) / L), 1),
       (x2 + dia / 2 * - ((y2 - y1) / L), y2 + dia / 2 * ((x2 - x1) / L), 0),
       (x1 + dia / 2 * - ((y2 - y1) / L), y1 + dia / 2 * ((x2 - x1) / L), 1)]"
    by (simp add: spec_slot_outline_def Let_def L_def)
  have code: "add_slot_capsule msp (x1, y1) (x2, y2) dia lay =
      Inr (msp @ [LWPolyline lay
        [(x1 - - (y2 - y1) / L * (dia / 2), y1 - (x2 - x1) / L * (dia / 2), 0),
         (x2 - - (y2 - y1) / L * (dia / 2), y2 - (x2 - x1) / L * (dia / 2), 1),
         (x2 + - (y2 - y1) / L * (dia / 2), y2 + (x2 - x1) / L * (dia / 2), 0),
         (x1 + - (y2 - y1) / L * (dia / 2), y1 + (x2 - x1) / L * (dia / 2), 1)] True])"
    using L by (simp add: add_slot_capsule_def hyp truediv_def py_bind_def add_lwpolyline_def Let_def)
  show ?thesis unfolding code spec using L(1) by (simp add: field_simps)
qed

lemma sqrt_1600: "sqrt 1600 = 40"
  by (rule real_sqrt_unique) simp_all

lemma slot_line_tokens:
  "findall_float ''100 50 20 0 l 40 0'' = [''100'', ''50'', ''20'', ''0'', ''40'', ''0'']"
  by (simp add: match_float_def match_unsigned_def is_digit_def Let_def)

lemma fnum_examples:
  "fnum ''100'' = Inr 100" "fnum ''50'' = Inr 50" "fnum ''20'' = Inr 20"
  "fnum ''40'' = Inr 40" "fnum ''0'' = Inr 0"
  by (simp_all add: fnum_def comma_to_dot_def py_float_def unsigned_val_def is_digit_def
      digits_val_def Let_def)

lemma slot_line_example:
  "bo_line ''100 50 20 0 l 40 0'' [] = Inr [Slot_item (100, 50) (140, 50) 20]"
  unfolding bo_line_def slot_line_tokens is_slot_iff
  by (simp add: fnum_examples py_bind_def Let_def)

lemma slot_outline_example:
  "add_bo_item [] (Slot_item (100, 50) (140, 50) 20) =
     Inr [LWPolyline ''cutout'' [(100, 40, 0), (140, 40, 1), (140, 60, 0), (100, 60, 1)] True]"
  by (simp add: add_bo_item_def add_slot_capsule_def math_hypot_def sqrt_1600 EPS_def
      truediv_def py_bind_def add_lwpolyline_def Let_def)

lemma slot_text_example:
  "generate_dxf_from_nc_text (''BO'' @ [CHR 0x0A] @ ''100 50 20 0 l 40 0'') =
     Inr [LWPolyline ''cutout'' [(100, 40, 0), (140, 40, 1), (140, 60, 0), (100, 60, 1)] True]"
proof -
  have tok: "tokenize_blocks (''BO'' @ [CHR 0x0A] @ ''100 50 20 0 l 40 0'') =
      [(''BO'', [''100 50 20 0 l 40 0''])]"
    by code_simp
  show ?thesis
    unfolding generate_dxf_from_nc_text_def tok assemble_def
    by (simp add: read_block_def slot_line_example py_bind_Inr add_outer_def
        slot_outline_example del: findall_float.simps)
qed

text \<open>
  C4. For a slot whose centers are at distance \<open>L \<ge> 1e-9\<close>, the capsule added to the
  modelspace is the closed polyline of the four vertices the specification gives, in that
  order. The bore line \<^verbatim>\<open>100 50 20 0 l 40 0\<close> is read as the slot with centers
  \<open>(100, 50)\<close>, \<open>(140, 50)\<close> and diameter \<open>20\<close>, and its outline is
  \<open>(100,40,0), (140,40,1), (140,60,0), (100,60,1)\<close>, closed; a text whose only block is
  \<^verbatim>\<open>BO\<close> with that line gives a drawing of this one polyline.
\<close>

theorem slot_outline:
  "(EPS \<le> sqrt ((x2 - x1)\<^sup>2 + (y2 - y1)\<^sup>2) \<longrightarrow>
      add_slot_capsule msp (x1, y1) (x2, y2) dia lay =
        Inr (msp @ [LWPolyline lay (spec_slot_outline (x1, y1) (x2, y2) dia) True])) \<and>
   bo_line ''100 50 20 0 l 40 0'' [] = Inr [Slot_item (100, 50) (140, 50) 20] \<and>
   add_bo_item [] (Slot_item (100, 50) (140, 50) 20) =
     Inr [LWPolyline ''cutout'' [(100, 40, 0), (140, 40, 1), (140, 60, 0), (100, 60, 1)] True] \<and>
   generate_dxf_from_nc_text (''BO'' @ [CHR 0x0A] @ ''100 50 20 0 l 40 0'') =
     Inr [LWPolyline ''cutout'' [(100, 40, 0), (140, 40, 1), (140, 60, 0), (100, 60, 1)] True]"
  using slot_capsule_outline slot_line_example slot_outline_example slot_text_example by blast

theorem slot_outline_witness:
  "add_slot_capsule [] (0, 0) (3, 4) 2 ''cutout'' =
     Inr [LWPolyline ''cutout'' (spec_slot_outline (0, 0) (3, 4) 2) True]"
proof -
  have "sqrt ((3 - 0)\<^sup>2 + (4 - 0)\<^sup>2) = (5::real)"
    by (rule real_sqrt_unique) simp_all
  then have "EPS \<le> sqrt ((3 - 0)\<^sup>2 + (4 - 0)\<^sup>2)" by (simp add: EPS_def)
  with slot_outline [of 3 0 4 0 "[]" 2 "''cutout''"] show ?thesis by simp
qed

text \<open>
  C5. The classification as stated asks for the letter \<^verbatim>\<open>l\<close> itself. The code looks
  for it in the lower-cased line: a line with a capital \<^verbatim>\<open>L\<close>, no \<^verbatim>\<open>l\<close> and six
  numbers is read as a slot, not as a hole.
\<close>

theorem bo_line_counterexample:
  "CHR ''l'' \<notin> set ''1 2 3 4 L 5 6'' \<and>
   bo_line ''1 2 3 4 L 5 6'' [] = Inr [Slot_item (1, 2) (6, 8) 3]"
proof
  show "CHR ''l'' \<notin> set ''1 2 3 4 L 5 6''" by simp
  have t: "findall_float ''1 2 3 4 L 5 6'' = [''1'', ''2'', ''3'', ''4'', ''5'', ''6'']"
    by (simp add: match_float_def match_unsigned_def is_digit_def Let_def)
  have f: "fnum ''1'' = Inr 1" "fnum ''2'' = Inr 2" "fnum ''3'' = Inr 3"
    "fnum ''5'' = Inr 5" "fnum ''6'' = Inr 6"
    by (simp_all add: fnum_def comma_to_dot_def py_float_def unsigned_val_def is_digit_def
        digits_val_def Let_def py_bind_def)
  show "bo_line ''1 2 3 4 L 5 6'' [] = Inr [Slot_item (1, 2) (6, 8) 3]"
    unfolding bo_line_def t is_slot_iff
    by (simp add: f py_bind_def Let_def)
qed

text \<open>
  C5, amended. A bore line that contains the letter \<^verbatim>\<open>l\<close> or \<^verbatim>\<open>L\<close> and has at least
  six numeric tokens is a slot with first center \<open>(numbers[0], numbers[1])\<close>, diameter
  \<open>numbers[2]\<close> and second center \<open>center1 + (numbers[4], numbers[5])\<close>; otherwise a
  line with at least three numeric tokens is a hole with center
  \<open>(numbers[0], numbers[1])\<close> and diameter \<open>numbers[2]\<close>; otherwise nothing is recorded.
\<close>

theorem bo_line_amended:
  "(let nums = findall_float line;
        has_l = (CHR ''l'' \<in> set line \<or> CHR ''L'' \<in> set line) in
    (has_l \<and> 6 \<le> length nums \<longrightarrow>
       (\<exists>x y dia dx dy.
          fnum (nums ! 0) = Inr x \<and> fnum (nums ! 1) = Inr y \<and> fnum (nums ! 2) = Inr dia \<and>
          fnum (nums ! 4) = Inr dx \<and> fnum (nums ! 5) = Inr dy \<and>
          bo_line line items = Inr (items @ [Slot_item (x, y) (x + dx, y + dy) dia]))) \<and>
    (\<not> (has_l \<and> 6 \<le> length nums) \<and> 3 \<le> length nums \<longrightarrow>
       (\<exists>x y dia.
          fnum (nums ! 0) = Inr x \<and> fnum (nums ! 1) = Inr y \<and> fnum (nums ! 2) = Inr dia \<and>
          bo_line line items = Inr (items @ [Circle_item (x, y) dia]))) \<and>
    (length nums < 3 \<longrightarrow> bo_line line items = Inr items))"
proof -
  let ?nums = "findall_float line"
  have slot: "\<exists>x y dia dx dy.
          fnum (?nums ! 0) = Inr x \<and> fnum (?nums ! 1) = Inr y \<and> fnum (?nums ! 2) = Inr dia \<and>
          fnum (?nums ! 4) = Inr dx \<and> fnum (?nums ! 5) = Inr dy \<and>
          bo_line line items = Inr (items @ [Slot_item (x, y) (x + dx, y + dy) dia])"
    if l: "CHR ''l'' \<in> set line \<or> CHR ''L'' \<in> set line" and n: "6 \<le> length ?nums"
  proof -
    have ex: "\<exists>v. fnum (?nums ! i) = Inr v" if "i < 6" for i
    proof -
      from that n have "i < length ?nums" by simp
      then show ?thesis by (rule fnum_nth)
    qed
    obtain x where "fnum (?nums ! 0) = Inr x" using ex [of 0] by auto
    moreover obtain y where "fnum (?nums ! 1) = Inr y" using ex [of 1] by auto
    moreover obtain dia where "fnum (?nums ! 2) = Inr dia" using ex [of 2] by auto
    moreover obtain dx where "fnum (?nums ! 4) = Inr dx" using ex [of 4] by auto
    moreover obtain dy where "fnum (?nums ! 5) = Inr dy" using ex [of 5] by auto
    ultimately have "fnum (?nums ! 0) = Inr x" "fnum (?nums ! 1) = Inr y" "fnum (?nums ! 2) = Inr dia"
      "fnum (?nums ! 4) = Inr dx" "fnum (?nums ! 5) = Inr dy" by simp_all
    with l n show ?thesis
      unfolding bo_line_def Let_def is_slot_iff by (auto simp add: py_bind_def)
  qed
  have hole: "\<exists>x y dia.
          fnum (?nums ! 0) = Inr x \<and> fnum (?nums ! 1) = Inr y \<and> fnum (?nums ! 2) = Inr dia \<and>
          bo_line line items = Inr (items @ [Circle_item (x, y) dia])"
    if l: "\<not> ((CHR ''l'' \<in> set line \<or> CHR ''L'' \<in> set line) \<and> 6 \<le> length ?nums)"
      and n: "3 \<le> length ?nums"
  proof -
    have ex: "\<exists>v. fnum (?nums ! i) = Inr v" if "i < 3" for i
    proof -
      from that n have "i < length ?nums" by simp
      then show ?thesis by (rule fnum_nth)
    qed
    obtain x where "fnum (?nums ! 0) = Inr x" using ex [of 0] by auto
    moreover obtain y where "fnum (?nums ! 1) = Inr y" using ex [of 1] by auto
    moreover obtain dia where "fnum (?nums ! 2) = Inr dia" using ex [of 2] by auto
    ultimately have "fnum (?nums ! 0) = Inr x" "fnum (?nums ! 1) = Inr y" "fnum (?nums ! 2) = Inr dia"
      by simp_all
    with l n show ?thesis
      unfolding bo_line_def Let_def is_slot_iff by (auto simp add: py_bind_def)
  qed
  have none: "bo_line line items = Inr items" if "length ?nums < 3"
    using that by (simp add: bo_line_def Let_def)
  from slot hole none show ?thesis unfolding Let_def by blast
qed

theorem bo_line_amended_witness:
  "\<exists>x y dia. fnum ''5'' = Inr x \<and> fnum ''5'' = Inr y \<and> fnum ''12'' = Inr dia \<and>
             bo_line ''5 5 12'' [] = Inr [Circle_item (x, y) dia]"
proof -
  have t: "findall_float ''5 5 12'' = [''5'', ''5'', ''12'']"
    by (simp add: match_float_def match_unsigned_def is_digit_def Let_def)
  from bo_line_amended [of "''5 5 12''" "[]"] show ?thesis unfolding t by simp
qed

text \<open>
  C7. A slot record whose centers coincide does not always give one circle: with a
  diameter of \<open>0\<close> nothing is added to the modelspace.
\<close>

theorem degenerate_slot_counterexample:
  "bo_line ''0 0 0 0 l 0 0'' [] = Inr [Slot_item (0, 0) (0, 0) 0] \<and>
   add_bo_item [] (Slot_item (0, 0) (0, 0) 0) = Inr []"
proof
  have "findall_float ''0 0 0 0 l 0 0'' = [''0'', ''0'', ''0'', ''0'', ''0'', ''0'']"
    by (simp add: match_float_def match_unsigned_def is_digit_def Let_def)
  then show "bo_line ''0 0 0 0 l 0 0'' [] = Inr [Slot_item (0, 0) (0, 0) 0]"
    unfolding bo_line_def is_slot_iff
    by (simp add: fnum_examples py_bind_def Let_def)
  show "add_bo_item [] (Slot_item (0, 0) (0, 0) 0) = Inr []"
    by (simp add: add_bo_item_def add_slot_capsule_def math_hypot_def EPS_def)
qed

text \<open>
  C7, amended. For a slot whose centers are at distance \<open>< 1e-9\<close>, the synthesizer adds
  one circle of radius \<open>diameter / 2\<close> at the first center when the diameter is positive
  and nothing otherwise; it never adds a polyline.
\<close>

theorem degenerate_slot_amended:
  "math_hypot (x2 - x1) (y2 - y1) < EPS \<Longrightarrow>
     add_slot_capsule msp (x1, y1) (x2, y2) dia lay =
       Inr (if 0 < dia then msp @ [Circle lay (x1, y1) (dia / 2)] else msp)"
  by (simp add: add_slot_capsule_def add_circle_def Let_def)

theorem degenerate_slot_amended_witness:
  "math_hypot (0 - 0) (0 - 0) < EPS \<and>
   add_slot_capsule [] (0, 0) (0, 0) 20 ''cutout'' = Inr [Circle ''cutout'' (0, 0) 10]"
proof -
  have h: "math_hypot (0 - 0) (0 - 0) < EPS" by (simp add: math_hypot_def EPS_def)
  from degenerate_slot_amended [OF h, of "[]" 20 "''cutout''"] h show ?thesis by simp
qed

text \<open>
  C10. A bore line read as a hole whose diameter is \<open>\<le> 0\<close> adds nothing to the
  modelspace.
\<close>

theorem hole_nonpositive_dropped:
  "bo_line line [] = Inr [Circle_item c dia] \<Longrightarrow> dia \<le> 0 \<Longrightarrow>
     add_bo_items msp [Circle_item c dia] = Inr msp"
  by (simp add: add_bo_item_def py_bind_def split_beta)

theorem hole_nonpositive_dropped_witness:
  "bo_line ''5 5 -12'' [] = Inr [Circle_item (5, 5) (- 12)] \<and> (- 12 :: real) \<le> 0 \<and>
   add_bo_items [] [Circle_item (5, 5) (- 12)] = Inr []"
proof -
  have t: "findall_float ''5 5 -12'' = [''5'', ''5'', ''-12'']"
    by (simp add: match_float_def match_unsigned_def is_digit_def Let_def)
  have f: "fnum ''5'' = Inr 5" "fnum ''-12'' = Inr (- 12)"
    by (simp_all add: fnum_def comma_to_dot_def py_float_def unsigned_val_def is_digit_def
        digits_val_def Let_def py_bind_def)
  have h: "bo_line ''5 5 -12'' [] = Inr [Circle_item (5, 5) (- 12)]"
    unfolding bo_line_def t is_slot_iff
    by (simp add: f py_bind_def Let_def)
  from hole_nonpositive_dropped [OF h, of "[]"] h show ?thesis by simp
qed


section \<open>Claims on the tokenizer\<close>

lemma EN_is_tag: "TAG_RE_fullmatch ''EN''"
  by (simp add: TAG_RE_fullmatch_def is_upper_AZ_def)

lemma not_tag_not_EN: "\<not> is_tag_line line \<Longrightarrow> strip line \<noteq> ''EN''"
  using EN_is_tag by (auto simp add: is_tag_line_def)

lemma tokenize_open_tagged:
  "t \<noteq> ''EN'' \<Longrightarrow>
     concat (map (\<lambda>(t, ls). t # ls) (tokenize_loop lns (Some t) cur)) =
       t # cur @ map trim_tag_line (lines_before_EN lns)"
proof (induction lns arbitrary: t cur)
  case Nil
  then show ?case by (simp add: lines_before_EN_def)
next
  case (Cons line lns)
  show ?case
  proof (cases "is_tag_line line")
    case tag: True
    show ?thesis
    proof (cases "strip line = ''EN''")
      case True
      with tag show ?thesis
        by (simp add: is_tag_line_def lines_before_EN_def)
    next
      case False
      with tag Cons.IH [of "strip line" "[]"] show ?thesis
        by (simp add: is_tag_line_def lines_before_EN_def trim_tag_line_def)
    qed
  next
    case False
    with Cons.IH [of t "cur @ [line]"] Cons.prems not_tag_not_EN [of line] show ?thesis
      by (simp add: is_tag_line_def lines_before_EN_def trim_tag_line_def)
  qed
qed

lemma tokenize_closed_tagged:
  "pre_tag_lines lns @ concat (map (\<lambda>(t, ls). t # ls) (tokenize_loop lns None [])) =
     map trim_tag_line (lines_before_EN lns)"
proof (induction lns)
  case Nil
  show ?case by (simp add: pre_tag_lines_def lines_before_EN_def)
next
  case (Cons line lns)
  show ?case
  proof (cases "is_tag_line line")
    case tag: True
    show ?thesis
    proof (cases "strip line = ''EN''")
      case True
      with tag show ?thesis
        by (simp add: is_tag_line_def lines_before_EN_def pre_tag_lines_def)
    next
      case False
      with tag tokenize_open_tagged [of "strip line" lns "[]"] show ?thesis
        by (simp add: is_tag_line_def lines_before_EN_def pre_tag_lines_def trim_tag_line_def)
    qed
  next
    case False
    with Cons.IH not_tag_not_EN [of line] show ?thesis
      by (simp add: is_tag_line_def lines_before_EN_def pre_tag_lines_def trim_tag_line_def)
  qed
qed

lemma tokenize_open_lines:
  "t \<noteq> ''EN'' \<Longrightarrow>
     concat (map snd (tokenize_loop lns (Some t) cur)) =
       cur @ filter (\<lambda>l. \<not> is_tag_line l) (lines_before_EN lns)"
proof (induction lns arbitrary: t cur)
  case Nil
  then show ?case by (simp add: lines_before_EN_def)
next
  case (Cons line lns)
  show ?case
  proof (cases "is_tag_line line")
    case tag: True
    show ?thesis
    proof (cases "strip line = ''EN''")
      case True
      with tag show ?thesis
        by (simp add: is_tag_line_def lines_before_EN_def)
    next
      case False
      with tag Cons.IH [of "strip line" "[]"] show ?thesis
        by (simp add: is_tag_line_def lines_before_EN_def)
    qed
  next
    case False
    with Cons.IH [of t "cur @ [line]"] Cons.prems not_tag_not_EN [of line] show ?thesis
      by (simp add: is_tag_line_def lines_before_EN_def)
  qed
qed

lemma tokenize_closed_lines:
  "pre_tag_lines lns @ concat (map snd (tokenize_loop lns None [])) =
     filter (\<lambda>l. \<not> is_tag_line l) (lines_before_EN lns)"
proof (induction lns)
  case Nil
  show ?case by (simp add: pre_tag_lines_def lines_before_EN_def)
next
  case (Cons line lns)
  show ?case
  proof (cases "is_tag_line line")
    case tag: True
    show ?thesis
    proof (cases "strip line = ''EN''")
      case True
      with tag show ?thesis
        by (simp add: is_tag_line_def lines_before_EN_def pre_tag_lines_def)
    next
      case False
      with tag tokenize_open_lines [of "strip line" lns "[]"] show ?thesis
        by (simp add: is_tag_line_def lines_before_EN_def pre_tag_lines_def)
    qed
  next
    case False
    with Cons.IH not_tag_not_EN [of line] show ?thesis
      by (simp add: is_tag_line_def lines_before_EN_def pre_tag_lines_def)
  qed
qed

text \<open>
  C6. The reconstruction as stated fails on the text of the two lines \<^verbatim>\<open>AK\<close> and
  \<^verbatim>\<open>1 2\<close>, which has no \<^verbatim>\<open>EN\<close> line: no line precedes the tag, the only block
  has the line \<^verbatim>\<open>1 2\<close>, and the tag line is in no block.
\<close>

theorem tokenizer_reconstruction_counterexample:
  "''EN'' \<notin> set (map strip (splitlines (''AK'' @ [CHR 0x0A] @ ''1 2''))) \<and>
   pre_tag_lines (splitlines (''AK'' @ [CHR 0x0A] @ ''1 2'')) @
     concat (map snd (tokenize_blocks (''AK'' @ [CHR 0x0A] @ ''1 2''))) \<noteq>
   splitlines (''AK'' @ [CHR 0x0A] @ ''1 2'')"
  by (simp add: splitlines_def is_linebreak_def tokenize_blocks_def strip_def is_space_def
      TAG_RE_fullmatch_def is_upper_AZ_def pre_tag_lines_def is_tag_line_def)


text \<open>
  C6, amended. For every text, the lines before the first tag line followed by the lines
  of all yielded blocks are the input lines before the first \<^verbatim>\<open>EN\<close> tag line without
  the tag lines; with the tag of each block put before its lines, they are these input
  lines with each tag line trimmed.
\<close>

theorem tokenizer_reconstruction_amended:
  "pre_tag_lines (splitlines text) @ concat (map snd (tokenize_blocks text)) =
     filter (\<lambda>l. \<not> is_tag_line l) (lines_before_EN (splitlines text)) \<and>
   pre_tag_lines (splitlines text) @ concat (map (\<lambda>(t, ls). t # ls) (tokenize_blocks text)) =
     map trim_tag_line (lines_before_EN (splitlines text))"
  by (simp add: tokenize_blocks_def tokenize_closed_lines tokenize_closed_tagged)


theorem tokenizer_reconstruction_amended_witness:
  "pre_tag_lines (splitlines (''x'' @ [CHR 0x0A] @ '' AK '' @ [CHR 0x0A] @ ''1 2'' @ [CHR 0x0A] @ ''EN'' @ [CHR 0x0A] @ ''y'')) @
     concat (map snd (tokenize_blocks (''x'' @ [CHR 0x0A] @ '' AK '' @ [CHR 0x0A] @ ''1 2'' @ [CHR 0x0A] @ ''EN'' @ [CHR 0x0A] @ ''y''))) =
     [''x'', ''1 2''] \<and>
   pre_tag_lines (splitlines (''x'' @ [CHR 0x0A] @ '' AK '' @ [CHR 0x0A] @ ''1 2'' @ [CHR 0x0A] @ ''EN'' @ [CHR 0x0A] @ ''y'')) @
     concat (map (\<lambda>(t, ls). t # ls) (tokenize_blocks (''x'' @ [CHR 0x0A] @ '' AK '' @ [CHR 0x0A] @ ''1 2'' @ [CHR 0x0A] @ ''EN'' @ [CHR 0x0A] @ ''y''))) =
     [''x'', ''AK'', ''1 2'']"
proof -
  let ?T = "''x'' @ [CHR 0x0A] @ '' AK '' @ [CHR 0x0A] @ ''1 2'' @ [CHR 0x0A] @ ''EN'' @ [CHR 0x0A] @ ''y''"
  have "filter (\<lambda>l. \<not> is_tag_line l) (lines_before_EN (splitlines ?T)) = [''x'', ''1 2'']"
    by code_simp
  moreover have "map trim_tag_line (lines_before_EN (splitlines ?T)) = [''x'', ''AK'', ''1 2'']"
    by code_simp
  ultimately show ?thesis
    using tokenizer_reconstruction_amended [of ?T] by simp
qed

section \<open>Reading the blocks never fails\<close>

lemma fnum_nth_le:
  "n \<le> length (findall_float s) \<Longrightarrow> i < n \<Longrightarrow> \<exists>v. fnum (findall_float s ! i) = Inr v"
  by (rule fnum_nth) simp

lemma points_line_total: "\<exists>pts'. points_line line pts = Inr pts'"
proof -
  let ?nums = "findall_float line"
  show ?thesis
  proof (cases "2 \<le> length ?nums")
    case False
    then show ?thesis by (simp add: points_line_def)
  next
    case True
    obtain x where x: "fnum (?nums ! 0) = Inr x" using fnum_nth_le [OF True, of 0] by auto
    obtain y where y: "fnum (?nums ! 1) = Inr y" using fnum_nth_le [OF True, of 1] by auto
    obtain k where k: "(if 3 \<le> length ?nums then fnum (?nums ! 2) else Inr 0) = Inr k"
      using fnum_nth_le [of 3 line 2] by (cases "3 \<le> length ?nums") auto
    show ?thesis
      unfolding points_line_def Let_def using True x y k by (simp add: py_bind_Inr)
  qed
qed

lemma points_loop_total: "\<exists>pts'. points_loop lns pts = Inr pts'"
proof (induction lns arbitrary: pts)
  case Nil
  show ?case by simp
next
  case (Cons line lns)
  obtain p where "points_line line pts = Inr p" using points_line_total by blast
  with Cons.IH [of p] show ?case by (simp add: py_bind_Inr)
qed

lemma parse_points_k_total: "\<exists>pts. parse_points_k lns = Inr pts"
  by (simp add: parse_points_k_def points_loop_total)

lemma bo_line_total: "\<exists>items'. bo_line line items = Inr items'"
proof -
  let ?nums = "findall_float line"
  show ?thesis
  proof (cases "CHR ''l'' \<in> set (map py_lower line) \<and> 6 \<le> length ?nums")
    case True
    then have n: "6 \<le> length ?nums" by simp
    obtain x where "fnum (?nums ! 0) = Inr x" using fnum_nth_le [OF n, of 0] by auto
    moreover obtain y where "fnum (?nums ! 1) = Inr y" using fnum_nth_le [OF n, of 1] by auto
    moreover obtain d where "fnum (?nums ! 2) = Inr d" using fnum_nth_le [OF n, of 2] by auto
    moreover obtain dx where "fnum (?nums ! 4) = Inr dx" using fnum_nth_le [OF n, of 4] by auto
    moreover obtain dy where "fnum (?nums ! 5) = Inr dy" using fnum_nth_le [OF n, of 5] by auto
    ultimately show ?thesis
      unfolding bo_line_def Let_def using True by (simp add: py_bind_Inr)
  next
    case nslot: False
    show ?thesis
    proof (cases "3 \<le> length ?nums")
      case True
      obtain x where "fnum (?nums ! 0) = Inr x" using fnum_nth_le [OF True, of 0] by auto
      moreover obtain y where "fnum (?nums ! 1) = Inr y" using fnum_nth_le [OF True, of 1] by auto
      moreover obtain d where "fnum (?nums ! 2) = Inr d" using fnum_nth_le [OF True, of 2] by auto
      ultimately show ?thesis
        unfolding bo_line_def Let_def using True nslot by (auto simp add: py_bind_Inr)
    next
      case False
      with nslot show ?thesis unfolding bo_line_def Let_def by auto
    qed
  qed
qed

lemma bo_loop_total: "\<exists>items'. bo_loop lns items = Inr items'"
proof (induction lns arbitrary: items)
  case Nil
  show ?case by simp
next
  case (Cons line lns)
  obtain p where "bo_line line items = Inr p" using bo_line_total by blast
  with Cons.IH [of p] show ?case by (simp add: py_bind_Inr)
qed

lemma read_block_AK:
  "is_AK blk \<Longrightarrow>
     read_block blk st = Inr (st\<lparr>outer_pts := Some (projr (parse_points_k (snd blk)))\<rparr>)"
proof -
  obtain pts where "parse_points_k (snd blk) = Inr pts" using parse_points_k_total by blast
  moreover assume "is_AK blk"
  ultimately show ?thesis
    by (cases blk) (simp add: read_block_def is_AK_def py_bind_Inr)
qed

lemma read_block_other:
  assumes "\<not> is_AK blk"
  shows "\<exists>ic bi.
           read_block blk (st\<lparr>outer_pts := v\<rparr>) = Inr (st\<lparr>outer_pts := v, inner_contours := ic, bo_items := bi\<rparr>) \<and>
           read_block blk st = Inr (st\<lparr>inner_contours := ic, bo_items := bi\<rparr>)"
proof -
  obtain tag lns where blk: "blk = (tag, lns)" by (cases blk)
  obtain pts where pts: "parse_points_k lns = Inr pts" using parse_points_k_total by blast
  obtain items where items: "bo_loop lns (bo_items st) = Inr items" using bo_loop_total by blast
  from assms blk have nak: "tag \<noteq> ''AK''" by (simp add: is_AK_def)
  consider (ik) "tag = ''IK''" | (bo) "tag \<noteq> ''IK''" "tag = ''BO''" | (ot) "tag \<noteq> ''IK''" "tag \<noteq> ''BO''"
    by blast
  then show ?thesis
  proof cases
    case ik
    show ?thesis
      by (rule exI [of _ "if pts \<noteq> [] then inner_contours st @ [pts] else inner_contours st"],
          rule exI [of _ "bo_items st"])
        (simp add: blk ik read_block_def pts py_bind_Inr)
  next
    case bo
    show ?thesis
      by (rule exI [of _ "inner_contours st"], rule exI [of _ items])
        (simp add: blk bo nak read_block_def items py_bind_Inr)
  next
    case ot
    show ?thesis
      by (rule exI [of _ "inner_contours st"], rule exI [of _ "bo_items st"])
        (simp add: blk ot nak read_block_def)
  qed
qed

lemma read_blocks_forget_outer:
  "list_ex is_AK blks \<Longrightarrow> read_blocks blks (st\<lparr>outer_pts := v\<rparr>) = read_blocks blks st"
proof (induction blks arbitrary: st)
  case Nil
  then show ?case by simp
next
  case (Cons blk blks)
  show ?case
  proof (cases "is_AK blk")
    case True
    then show ?thesis by (simp add: read_block_AK py_bind_Inr)
  next
    case False
    with Cons.prems have ex: "list_ex is_AK blks" by simp
    from read_block_other [OF False, where st = st and v = v] obtain ic bi where
      a: "read_block blk (st\<lparr>outer_pts := v\<rparr>) =
            Inr (st\<lparr>outer_pts := v, inner_contours := ic, bo_items := bi\<rparr>)"
      and b: "read_block blk st = Inr (st\<lparr>inner_contours := ic, bo_items := bi\<rparr>)"
      by blast
    have "st\<lparr>outer_pts := v, inner_contours := ic, bo_items := bi\<rparr> =
          (st\<lparr>inner_contours := ic, bo_items := bi\<rparr>)\<lparr>outer_pts := v\<rparr>" by simp
    with Cons.IH [OF ex, of "st\<lparr>inner_contours := ic, bo_items := bi\<rparr>"] a b
    show ?thesis by (simp add: py_bind_Inr)
  qed
qed

lemma read_blocks_keep_last_AK: "read_blocks (keep_last_AK blks) st = read_blocks blks st"
proof (induction blks arbitrary: st)
  case Nil
  show ?case by simp
next
  case (Cons blk blks)
  show ?case
  proof (cases "is_AK blk \<and> list_ex is_AK blks")
    case True
    then show ?thesis
      using Cons.IH [of st] read_blocks_forget_outer [where blks = blks and st = st]
      by (simp add: read_block_AK py_bind_Inr)
  next
    case False
    have "read_blocks (keep_last_AK blks) = read_blocks blks"
      using Cons.IH by (rule ext)
    with False show ?thesis by auto
  qed
qed

lemma read_blocks_total: "\<exists>st'. read_blocks blks st = Inr st'"
proof (induction blks arbitrary: st)
  case Nil
  show ?case by simp
next
  case (Cons blk blks)
  have "\<exists>s. read_block blk st = Inr s"
    using read_block_AK [of blk st] read_block_other [where blk = blk and st = st and v = "outer_pts st"]
    by (cases "is_AK blk") auto
  then obtain s where "read_block blk st = Inr s" by blast
  with Cons.IH [of s] show ?case by (simp add: py_bind_Inr)
qed

lemma read_blocks_outer:
  "read_blocks blks st = Inr st' \<Longrightarrow>
     outer_pts st' =
       (if list_ex is_AK blks
        then Some (projr (parse_points_k (snd (last (filter is_AK blks)))))
        else outer_pts st)"
proof (induction blks arbitrary: st)
  case Nil
  then show ?case by simp
next
  case (Cons blk blks)
  show ?case
  proof (cases "is_AK blk")
    case True
    with Cons.prems have "read_blocks blks (st\<lparr>outer_pts := Some (projr (parse_points_k (snd blk)))\<rparr>) = Inr st'"
      by (simp add: read_block_AK py_bind_Inr)
    from Cons.IH [OF this] True show ?thesis
      by (auto simp add: list_ex_iff filter_empty_conv)
  next
    case False
    from read_block_other [OF False, where st = st and v = "outer_pts st"] obtain ic bi where
      b: "read_block blk st = Inr (st\<lparr>inner_contours := ic, bo_items := bi\<rparr>)"
      by blast
    with Cons.prems have "read_blocks blks (st\<lparr>inner_contours := ic, bo_items := bi\<rparr>) = Inr st'"
      by (simp add: py_bind_Inr)
    from Cons.IH [OF this] False show ?thesis by simp
  qed
qed

section \<open>Claims on the assembled drawing\<close>

lemma build_nonempty:
  "\<exists>vs. build_xyb_from_points pts = Inr vs \<and> (vs \<noteq> [] \<longleftrightarrow> 2 \<le> length pts)"
  by (auto simp add: build_total)

lemma add_outer_result:
  "\<exists>vs. (case opts of None \<Rightarrow> True | Some pts \<Rightarrow> build_xyb_from_points pts = Inr vs) \<and>
        add_outer msp opts =
          Inr (msp @ (case opts of
                        None \<Rightarrow> []
                      | Some pts \<Rightarrow> if 2 \<le> length pts then [LWPolyline ''OUTER'' vs True] else []))"
proof (cases opts)
  case None
  then show ?thesis by (simp add: add_outer_def)
next
  case (Some pts)
  obtain vs where vs: "build_xyb_from_points pts = Inr vs" "vs \<noteq> [] \<longleftrightarrow> 2 \<le> length pts"
    using build_nonempty by blast
  have "pts = [] \<Longrightarrow> \<not> 2 \<le> length pts" by simp
  with Some vs show ?thesis
    by (intro exI [of _ vs]) (auto simp add: add_outer_def py_bind_Inr add_lwpolyline_def)
qed

lemma add_inner_cutout:
  "\<exists>es. add_inner msp cs = Inr (msp @ es) \<and> (\<forall>e \<in> set es. layer e = ''cutout'')"
proof (induction cs arbitrary: msp)
  case Nil
  show ?case by simp
next
  case (Cons pts cs)
  obtain vs where vs: "build_xyb_from_points pts = Inr vs"
    using build_nonempty by blast
  let ?m = "if vs \<noteq> [] then add_lwpolyline msp vs True ''cutout'' else msp"
  from Cons.IH [of ?m] obtain es where
    es: "add_inner ?m cs = Inr (?m @ es)" "\<forall>e \<in> set es. layer e = ''cutout''" by blast
  show ?case
  proof (cases "vs = []")
    case True
    with vs es show ?thesis by (auto simp add: py_bind_Inr)
  next
    case False
    with vs es show ?thesis
      by (intro exI [of _ "LWPolyline ''cutout'' vs True # es"])
        (simp add: py_bind_Inr add_lwpolyline_def)
  qed
qed

lemma add_slot_capsule_layer:
  "\<exists>es. add_slot_capsule msp c1 c2 dia lay = Inr (msp @ es) \<and> (\<forall>e \<in> set es. layer e = lay)"
proof -
  obtain x1 y1 x2 y2 where c: "c1 = (x1, y1)" "c2 = (x2, y2)"
    by (cases c1, cases c2) auto
  let ?L = "math_hypot (x2 - x1) (y2 - y1)"
  show ?thesis
  proof (cases "?L < EPS")
    case True
    then show ?thesis
      by (auto simp add: c add_slot_capsule_def add_circle_def Let_def)
  next
    case False
    with EPS_pos have "?L \<noteq> 0" by linarith
    with False show ?thesis
      by (simp add: c add_slot_capsule_def truediv_def py_bind_Inr add_lwpolyline_def Let_def)
  qed
qed

lemma add_bo_item_cutout:
  "\<exists>es. add_bo_item msp item = Inr (msp @ es) \<and> (\<forall>e \<in> set es. layer e = ''cutout'')"
proof (cases item)
  case (Slot_item c1 c2 dia)
  then show ?thesis
    using add_slot_capsule_layer [of msp c1 c2 dia "''cutout''"] by (simp add: add_bo_item_def)
next
  case (Circle_item c dia)
  then show ?thesis
    by (auto simp add: add_bo_item_def add_circle_def split_beta Let_def)
qed

lemma add_bo_items_cutout:
  "\<exists>es. add_bo_items msp items = Inr (msp @ es) \<and> (\<forall>e \<in> set es. layer e = ''cutout'')"
proof (induction items arbitrary: msp)
  case Nil
  show ?case by simp
next
  case (Cons item items)
  obtain es where es: "add_bo_item msp item = Inr (msp @ es)" "\<forall>e \<in> set es. layer e = ''cutout''"
    using add_bo_item_cutout by blast
  from Cons.IH [of "msp @ es"] obtain es' where
    es': "add_bo_items (msp @ es) items = Inr ((msp @ es) @ es')" "\<forall>e \<in> set es'. layer e = ''cutout''"
    by blast
  from es es' show ?case
    by (intro exI [of _ "es @ es'"]) (auto simp add: py_bind_Inr)
qed

lemma assemble_result:
  "\<exists>st vs es.
     read_blocks blocks \<lparr>outer_pts = None, inner_contours = [], bo_items = []\<rparr> = Inr st \<and>
     (case outer_pts st of None \<Rightarrow> True | Some pts \<Rightarrow> build_xyb_from_points pts = Inr vs) \<and>
     assemble blocks =
       Inr ((case outer_pts st of
               None \<Rightarrow> []
             | Some pts \<Rightarrow> if 2 \<le> length pts then [LWPolyline ''OUTER'' vs True] else []) @ es) \<and>
     (\<forall>e \<in> set es. layer e = ''cutout'')"
proof -
  let ?st0 = "\<lparr>outer_pts = None, inner_contours = [], bo_items = []\<rparr>"
  obtain st where st: "read_blocks blocks ?st0 = Inr st"
    using read_blocks_total by blast
  let ?o = "\<lambda>vs. case outer_pts st of
               None \<Rightarrow> []
             | Some pts \<Rightarrow> if 2 \<le> length pts then [LWPolyline ''OUTER'' vs True] else []"
  obtain vs where vs: "case outer_pts st of None \<Rightarrow> True | Some pts \<Rightarrow> build_xyb_from_points pts = Inr vs"
    and o: "add_outer [] (outer_pts st) = Inr ([] @ ?o vs)"
    using add_outer_result [of "outer_pts st" "[]"] by blast
  obtain es1 where es1: "add_inner (?o vs) (inner_contours st) = Inr (?o vs @ es1)"
      "\<forall>e \<in> set es1. layer e = ''cutout''"
    using add_inner_cutout by blast
  obtain es2 where es2: "add_bo_items (?o vs @ es1) (bo_items st) = Inr ((?o vs @ es1) @ es2)"
      "\<forall>e \<in> set es2. layer e = ''cutout''"
    using add_bo_items_cutout by blast
  have "assemble blocks = Inr (?o vs @ (es1 @ es2))"
    using st o es1(1) es2(1) by (simp add: assemble_def py_bind_Inr)
  with st vs es1(2) es2(2) show ?thesis
    by (intro exI [of _ st] exI [of _ vs] exI [of _ "es1 @ es2"]) auto
qed

lemma assemble_keep_last_AK: "assemble (keep_last_AK blocks) = assemble blocks"
  by (simp add: assemble_def read_blocks_keep_last_AK)

text \<open>
  C8. For a text with two or more \<^verbatim>\<open>AK\<close> blocks before \<^verbatim>\<open>EN\<close>, the drawing is
  produced, its entities on the layer \<^verbatim>\<open>OUTER\<close> are the one closed polyline built from
  the points of the last \<^verbatim>\<open>AK\<close> block (none if that block has fewer than two points),
  and the whole drawing is the one of the blocks without the earlier \<^verbatim>\<open>AK\<close> blocks.
\<close>

theorem last_AK_wins:
  assumes "2 \<le> length (filter is_AK (tokenize_blocks txt))"
  shows "\<exists>pts vs msp.
           parse_points_k (snd (last (filter is_AK (tokenize_blocks txt)))) = Inr pts \<and>
           build_xyb_from_points pts = Inr vs \<and>
           generate_dxf_from_nc_text txt = Inr msp \<and>
           OUTER_group msp = (if 2 \<le> length pts then [LWPolyline ''OUTER'' vs True] else []) \<and>
           generate_dxf_from_nc_text txt = assemble (keep_last_AK (tokenize_blocks txt))"
proof -
  let ?blocks = "tokenize_blocks txt"
  let ?lines = "snd (last (filter is_AK ?blocks))"
  from assms have "filter is_AK ?blocks \<noteq> []" by auto
  then have ak: "list_ex is_AK ?blocks"
    by (simp add: list_ex_iff filter_empty_conv)
  obtain pts where pts: "parse_points_k ?lines = Inr pts"
    using parse_points_k_total by blast
  from assemble_result [of ?blocks] obtain st vs es where
    st: "read_blocks ?blocks \<lparr>outer_pts = None, inner_contours = [], bo_items = []\<rparr> = Inr st"
    and vs: "case outer_pts st of None \<Rightarrow> True | Some pts \<Rightarrow> build_xyb_from_points pts = Inr vs"
    and msp: "assemble ?blocks =
       Inr ((case outer_pts st of
               None \<Rightarrow> []
             | Some pts \<Rightarrow> if 2 \<le> length pts then [LWPolyline ''OUTER'' vs True] else []) @ es)"
    and es: "\<forall>e \<in> set es. layer e = ''cutout''"
    by blast
  from read_blocks_outer [OF st] ak pts have o: "outer_pts st = Some pts" by simp
  from es have "filter (\<lambda>e. layer e = ''OUTER'') es = []"
    by (auto simp add: filter_empty_conv)
  with o msp have "OUTER_group (projr (assemble ?blocks)) =
      (if 2 \<le> length pts then [LWPolyline ''OUTER'' vs True] else [])"
    by (simp add: OUTER_group_def)
  with pts vs o msp show ?thesis
    by (simp add: generate_dxf_from_nc_text_def assemble_keep_last_AK)
qed

theorem last_AK_wins_witness:
  "2 \<le> length (filter is_AK (tokenize_blocks
      (''AK'' @ [CHR 0x0A] @ ''0 0'' @ [CHR 0x0A] @ ''AK'' @ [CHR 0x0A] @ ''1 1 0'' @ [CHR 0x0A] @ ''9 1 4''))) \<and>
   (\<exists>pts vs msp.
      parse_points_k (snd (last (filter is_AK (tokenize_blocks
        (''AK'' @ [CHR 0x0A] @ ''0 0'' @ [CHR 0x0A] @ ''AK'' @ [CHR 0x0A] @ ''1 1 0'' @ [CHR 0x0A] @ ''9 1 4''))))) = Inr pts \<and>
      build_xyb_from_points pts = Inr vs \<and>
      generate_dxf_from_nc_text
        (''AK'' @ [CHR 0x0A] @ ''0 0'' @ [CHR 0x0A] @ ''AK'' @ [CHR 0x0A] @ ''1 1 0'' @ [CHR 0x0A] @ ''9 1 4'') = Inr msp \<and>
      OUTER_group msp = (if 2 \<le> length pts then [LWPolyline ''OUTER'' vs True] else []))"
proof -
  have h: "2 \<le> length (filter is_AK (tokenize_blocks
      (''AK'' @ [CHR 0x0A] @ ''0 0'' @ [CHR 0x0A] @ ''AK'' @ [CHR 0x0A] @ ''1 1 0'' @ [CHR 0x0A] @ ''9 1 4'')))"
    by code_simp
  from last_AK_wins [OF h] h show ?thesis by blast
qed


end
